theory Spec2Isabelle
  imports Complex_Main "HOL-Library.Word" "HOL-Library.Log_Nat"
begin

section \<open>Samples and errors\<close>

text \<open>
  A sample is Go's \<open>int16\<close>; a waveform is a slice \<open>[]int16\<close>, here a list. The
  accumulator of \<open>LinearSummation\<close> is an \<open>int32\<close>, whose addition wraps around.
  Go's \<open>int\<close> (sample rates) is taken as 64 bits wide.
\<close>

type_synonym sample = "16 word"

text \<open>
  The three mixing functions return \<open>errors.New\<close> values that differ only in their
  message; one constructor per message.
\<close>

datatype mix_error =
    NoSamplesProvided     \<comment> \<open>"no samples provided"\<close>
  | WeightCountMismatch   \<comment> \<open>"number of weights must match number of samples"\<close>
  | MismatchedLengths     \<comment> \<open>"mismatched sample lengths"\<close>

text \<open>A run-time panic of the Go program: an index outside the slice.\<close>

datatype panic = IndexOutOfRange

section \<open>A model of \<open>float64\<close>\<close>

text \<open>
  An IEEE 754 binary64 value is a finite rational, an infinity or a NaN. Every
  arithmetic operation computes the exact rational result and rounds it to the nearest
  representable value, ties to even, with 53 significant bits, gradual underflow down
  to \<open>2 powi -1074\<close> and overflow to an infinity from \<open>2 ^ 1024\<close> on. The sign of a zero
  is not represented: every zero is \<open>+0\<close>.
\<close>

datatype float64 = Fin rat | PInf | NInf | NaN

text \<open>\<open>expo x\<close> is the binary exponent of a non-zero \<open>x\<close>: \<open>2 powi expo x \<le> \<bar>x\<bar> < 2 powi (expo x + 1)\<close>.\<close>

definition expo :: "rat \<Rightarrow> int" where
  "expo x =
     (let (p, q) = quotient_of \<bar>x\<bar>;
          e0 = bitlen p - bitlen q
      in if 2 powi e0 \<le> \<bar>x\<bar> then e0 else e0 - 1)"

definition round_half_even :: "rat \<Rightarrow> int" where
  "round_half_even q =
     (let f = \<lfloor>q\<rfloor>; d = q - of_int f
      in if d < 1 / 2 then f
         else if 1 / 2 < d then f + 1
         else if even f then f else f + 1)"

definition round64 :: "rat \<Rightarrow> float64" where
  "round64 x =
     (if x = 0 then Fin 0
      else
        let u = 2 powi (max (expo x - 52) (- 1074));
            r = of_int (round_half_even (x / u)) * u
        in if 2 ^ 1024 \<le> \<bar>r\<bar> then (if 0 < x then PInf else NInf) else Fin r)"

text \<open>Conversion \<open>float64(n)\<close> from an integer.\<close>

definition f64_of_int :: "int \<Rightarrow> float64" where
  "f64_of_int n = round64 (of_int n)"

fun f64_neg :: "float64 \<Rightarrow> float64" where
  "f64_neg (Fin a) = Fin (- a)"
| "f64_neg PInf = NInf"
| "f64_neg NInf = PInf"
| "f64_neg NaN = NaN"

text \<open>\<open>math.Abs\<close>.\<close>

fun f64_abs :: "float64 \<Rightarrow> float64" where
  "f64_abs (Fin a) = Fin \<bar>a\<bar>"
| "f64_abs PInf = PInf"
| "f64_abs NInf = PInf"
| "f64_abs NaN = NaN"

fun f64_add :: "float64 \<Rightarrow> float64 \<Rightarrow> float64" where
  "f64_add NaN y = NaN"
| "f64_add x NaN = NaN"
| "f64_add (Fin a) (Fin b) = round64 (a + b)"
| "f64_add PInf NInf = NaN"
| "f64_add NInf PInf = NaN"
| "f64_add PInf y = PInf"
| "f64_add NInf y = NInf"
| "f64_add (Fin a) y = y"

definition f64_sub :: "float64 \<Rightarrow> float64 \<Rightarrow> float64" where
  "f64_sub x y = f64_add x (f64_neg y)"

text \<open>The infinity with the sign of a product or quotient of two signs.\<close>

definition signed_inf :: "bool \<Rightarrow> float64" where
  "signed_inf negative = (if negative then NInf else PInf)"

fun f64_mul :: "float64 \<Rightarrow> float64 \<Rightarrow> float64" where
  "f64_mul NaN y = NaN"
| "f64_mul x NaN = NaN"
| "f64_mul (Fin a) (Fin b) = round64 (a * b)"
| "f64_mul (Fin a) PInf = (if a = 0 then NaN else signed_inf (a < 0))"
| "f64_mul (Fin a) NInf = (if a = 0 then NaN else signed_inf (0 < a))"
| "f64_mul PInf (Fin b) = (if b = 0 then NaN else signed_inf (b < 0))"
| "f64_mul NInf (Fin b) = (if b = 0 then NaN else signed_inf (0 < b))"
| "f64_mul PInf PInf = PInf"
| "f64_mul PInf NInf = NInf"
| "f64_mul NInf PInf = NInf"
| "f64_mul NInf NInf = PInf"

fun f64_div :: "float64 \<Rightarrow> float64 \<Rightarrow> float64" where
  "f64_div NaN y = NaN"
| "f64_div x NaN = NaN"
| "f64_div (Fin a) (Fin b) =
     (if b = 0 then (if a = 0 then NaN else signed_inf (a < 0)) else round64 (a / b))"
| "f64_div (Fin a) y = Fin 0"
| "f64_div PInf (Fin b) = signed_inf (b < 0)"
| "f64_div NInf (Fin b) = signed_inf (\<not> b < 0)"
| "f64_div x y = NaN"

text \<open>The comparisons \<open><\<close> and \<open>>\<close>; both are false when an operand is a NaN.\<close>

fun f64_lt :: "float64 \<Rightarrow> float64 \<Rightarrow> bool" where
  "f64_lt NaN y = False"
| "f64_lt x NaN = False"
| "f64_lt (Fin a) (Fin b) = (a < b)"
| "f64_lt x NInf = False"
| "f64_lt PInf y = False"
| "f64_lt x y = True"

definition f64_gt :: "float64 \<Rightarrow> float64 \<Rightarrow> bool" where
  "f64_gt x y = f64_lt y x"

text \<open>
  \<open>math.Sqrt\<close> is the correctly rounded square root. \<open>isqrt n\<close> is the integer square
  root, found bit by bit from the top; \<open>sqrt64\<close> scales its argument so that the root
  has 53 bits before the binary point and rounds there.
\<close>

fun sqrt_bits :: "nat \<Rightarrow> nat \<Rightarrow> nat \<Rightarrow> nat" where
  "sqrt_bits 0 n r = r"
| "sqrt_bits (Suc k) n r = (let c = r + 2 ^ k in sqrt_bits k n (if c * c \<le> n then c else r))"

definition isqrt :: "nat \<Rightarrow> nat" where
  "isqrt n = sqrt_bits (nat (bitlen (int n))) n 0"

definition sqrt64 :: "rat \<Rightarrow> float64" where
  "sqrt64 a =
     (let u = 2 powi (expo a div 2 - 52);
          t = a / (u * u);
          n = int (isqrt (nat \<lfloor>t\<rfloor>));
          h = of_int (n * n + n) + 1 / 4
      in Fin (of_int (if t < h then n else if h < t then n + 1
                      else if even n then n else n + 1) * u))"

fun f64_sqrt :: "float64 \<Rightarrow> float64" where
  "f64_sqrt (Fin a) = (if a < 0 then NaN else if a = 0 then Fin 0 else sqrt64 a)"
| "f64_sqrt PInf = PInf"
| "f64_sqrt NInf = NaN"
| "f64_sqrt NaN = NaN"

text \<open>
  The conversion \<open>int16(f)\<close> discards the fraction (truncation towards zero). When the
  truncated value does not fit the result type the Go specification leaves the result
  to the implementation; the compiler converts to \<open>int32\<close> and keeps the low 16 bits,
  and the amd64 instruction yields \<open>0x80000000\<close> for a value outside \<open>int32\<close> or a NaN.
\<close>

definition ftrunc :: "rat \<Rightarrow> int" where
  "ftrunc q = (if 0 \<le> q then \<lfloor>q\<rfloor> else \<lceil>q\<rceil>)"

fun int16_of_f64 :: "float64 \<Rightarrow> sample" where
  "int16_of_f64 (Fin q) =
     (let n = ftrunc q in if - (2 ^ 31) \<le> n \<and> n < 2 ^ 31 then word_of_int n else 0)"
| "int16_of_f64 x = 0"

text \<open>\<open>float64(s)\<close> for an \<open>int16\<close> sample, and the constants of package \<open>math\<close>.\<close>

definition f64_of_sample :: "sample \<Rightarrow> float64" where
  "f64_of_sample s = f64_of_int (sint s)"

definition MaxInt16 :: int where "MaxInt16 = 32767"
definition MinInt16 :: int where "MinInt16 = - 32768"

section \<open>Mixing strategies\<close>

subsection \<open>LinearSummation\<close>

text \<open>The inner loop \<open>for _, sample := range samples\<close> at index \<open>i\<close>, on an \<open>int32\<close> sum.\<close>

fun linear_inner :: "nat \<Rightarrow> nat \<Rightarrow> sample list list \<Rightarrow> 32 word \<Rightarrow> mix_error + 32 word" where
  "linear_inner numSamples i [] acc = Inr acc"
| "linear_inner numSamples i (sample # rest) acc =
     (if length sample \<noteq> numSamples then Inl MismatchedLengths
      else linear_inner numSamples i rest (acc + scast (sample ! i)))"

text \<open>The clamp of the \<open>int32\<close> sum and the narrowing \<open>int16(sum)\<close>.\<close>

definition clamp_int32 :: "32 word \<Rightarrow> sample" where
  "clamp_int32 acc =
     scast (if sint acc > MaxInt16 then word_of_int MaxInt16
            else if sint acc < MinInt16 then word_of_int MinInt16
            else acc)"

function linear_loop :: "sample list list \<Rightarrow> nat \<Rightarrow> nat \<Rightarrow> sample list \<Rightarrow> mix_error + sample list" where
  "linear_loop samples numSamples i combined =
     (if i < numSamples then
        (case linear_inner numSamples i samples 0 of
           Inl e \<Rightarrow> Inl e
         | Inr acc \<Rightarrow> linear_loop samples numSamples (i + 1) (combined[i := clamp_int32 acc]))
      else Inr combined)"
  by pat_completeness auto
termination
  by (relation "measure (\<lambda>(samples, numSamples, i, combined). numSamples - i)") auto

declare linear_loop.simps [simp del]

definition LinearSummation :: "sample list list \<Rightarrow> mix_error + sample list" where
  "LinearSummation samples =
     (if length samples = 0 then Inl NoSamplesProvided
      else let numSamples = length (samples ! 0)
           in linear_loop samples numSamples 0 (replicate numSamples 0))"

subsection \<open>WeightedSummation\<close>

text \<open>The clamp of a \<open>float64\<close> value to the \<open>int16\<close> range, then \<open>int16(sum)\<close>.\<close>

definition clamp_f64 :: "float64 \<Rightarrow> sample" where
  "clamp_f64 acc =
     int16_of_f64 (if f64_gt acc (f64_of_int MaxInt16) then f64_of_int MaxInt16
                   else if f64_lt acc (f64_of_int MinInt16) then f64_of_int MinInt16
                   else acc)"

text \<open>
  The inner loop \<open>for j, sample := range samples\<close>. \<open>weights ! j\<close> is in range: the
  function has checked \<open>len(weights) == len(samples)\<close> before.
\<close>

fun weighted_inner ::
  "float64 list \<Rightarrow> nat \<Rightarrow> nat \<Rightarrow> nat \<Rightarrow> sample list list \<Rightarrow> float64 \<Rightarrow> mix_error + float64" where
  "weighted_inner weights numSamples i j [] acc = Inr acc"
| "weighted_inner weights numSamples i j (sample # rest) acc =
     (if length sample \<noteq> numSamples then Inl MismatchedLengths
      else weighted_inner weights numSamples i (j + 1) rest
             (f64_add acc (f64_mul (f64_of_sample (sample ! i)) (weights ! j))))"

function weighted_loop ::
  "float64 list \<Rightarrow> sample list list \<Rightarrow> nat \<Rightarrow> nat \<Rightarrow> sample list \<Rightarrow> mix_error + sample list" where
  "weighted_loop weights samples numSamples i combined =
     (if i < numSamples then
        (case weighted_inner weights numSamples i 0 samples (f64_of_int 0) of
           Inl e \<Rightarrow> Inl e
         | Inr acc \<Rightarrow>
             weighted_loop weights samples numSamples (i + 1) (combined[i := clamp_f64 acc]))
      else Inr combined)"
  by pat_completeness auto
termination
  by (relation "measure (\<lambda>(weights, samples, numSamples, i, combined). numSamples - i)") auto

declare weighted_loop.simps [simp del]

definition WeightedSummation :: "float64 list \<Rightarrow> sample list list \<Rightarrow> mix_error + sample list" where
  "WeightedSummation weights samples =
     (if length weights \<noteq> length samples then Inl WeightCountMismatch
      else if length samples = 0 then Inl NoSamplesProvided
      else let numSamples = length (samples ! 0)
           in weighted_loop weights samples numSamples 0 (replicate numSamples 0))"

subsection \<open>RMSMixing\<close>

fun rms_inner :: "nat \<Rightarrow> nat \<Rightarrow> sample list list \<Rightarrow> float64 \<Rightarrow> mix_error + float64" where
  "rms_inner numSamples i [] sumSquares = Inr sumSquares"
| "rms_inner numSamples i (sample # rest) sumSquares =
     (if length sample \<noteq> numSamples then Inl MismatchedLengths
      else rms_inner numSamples i rest
             (f64_add sumSquares (f64_mul (f64_of_sample (sample ! i)) (f64_of_sample (sample ! i)))))"

text \<open>\<open>rms := math.Sqrt(sumSquares / float64(len(samples)))\<close>.\<close>

definition rms_value :: "sample list list \<Rightarrow> float64 \<Rightarrow> float64" where
  "rms_value samples sumSquares = f64_sqrt (f64_div sumSquares (f64_of_int (int (length samples))))"

function rms_loop :: "sample list list \<Rightarrow> nat \<Rightarrow> nat \<Rightarrow> sample list \<Rightarrow> mix_error + sample list" where
  "rms_loop samples numSamples i combined =
     (if i < numSamples then
        (case rms_inner numSamples i samples (f64_of_int 0) of
           Inl e \<Rightarrow> Inl e
         | Inr sumSquares \<Rightarrow>
             rms_loop samples numSamples (i + 1)
               (combined[i := clamp_f64 (rms_value samples sumSquares)]))
      else Inr combined)"
  by pat_completeness auto
termination
  by (relation "measure (\<lambda>(samples, numSamples, i, combined). numSamples - i)") auto

declare rms_loop.simps [simp del]

definition RMSMixing :: "sample list list \<Rightarrow> mix_error + sample list" where
  "RMSMixing samples =
     (if length samples = 0 then Inl NoSamplesProvided
      else let numSamples = length (samples ! 0)
           in rms_loop samples numSamples 0 (replicate numSamples 0))"

section \<open>Signal utilities\<close>

subsection \<open>FindPeakAmplitude\<close>

text \<open>
  The loop \<open>for _, sample := range samples\<close> with the running \<open>maxAmplitude\<close>; the
  absolute value is taken in \<open>float64\<close> and converted back with \<open>int16(...)\<close>.
\<close>

fun peak_loop :: "sample list \<Rightarrow> sample \<Rightarrow> sample" where
  "peak_loop [] maxAmplitude = maxAmplitude"
| "peak_loop (sample # rest) maxAmplitude =
     (let abs = int16_of_f64 (f64_abs (f64_of_sample sample))
      in peak_loop rest (if sint abs > sint maxAmplitude then abs else maxAmplitude))"

definition FindPeakAmplitude :: "sample list \<Rightarrow> sample" where
  "FindPeakAmplitude samples = peak_loop samples 0"

subsection \<open>NormalizeSamples\<close>

text \<open>The body of the scaling loop for one sample.\<close>

definition normalize_sample :: "float64 \<Rightarrow> sample \<Rightarrow> sample" where
  "normalize_sample scale s =
     (let normalized = f64_mul (f64_of_sample s) scale
      in if f64_gt normalized (f64_of_int MaxInt16) then word_of_int MaxInt16
         else if f64_lt normalized (f64_of_int MinInt16) then word_of_int MinInt16
         else int16_of_f64 normalized)"

text \<open>
  The loop writes \<open>normalizedSamples[i]\<close> from \<open>samples[i]\<close> alone, for every index
  in order: a \<open>map\<close>.
\<close>

definition NormalizeSamples :: "sample list \<Rightarrow> sample \<Rightarrow> sample list" where
  "NormalizeSamples samples targetPeak =
     (let currentPeak = FindPeakAmplitude samples
      in if currentPeak = 0 then samples
         else let scale = f64_div (f64_of_sample targetPeak) (f64_of_sample currentPeak)
              in map (normalize_sample scale) samples)"

subsection \<open>AnalyzeHighestFrequency\<close>

function crossings_loop :: "sample list \<Rightarrow> nat \<Rightarrow> nat \<Rightarrow> nat \<Rightarrow> nat" where
  "crossings_loop samples l i zeroCrossings =
     (if i < l then
        crossings_loop samples l (i + 1)
          (if (sint (samples ! (i - 1)) > 0 \<and> sint (samples ! i) < 0)
              \<or> (sint (samples ! (i - 1)) < 0 \<and> sint (samples ! i) > 0)
           then zeroCrossings + 1 else zeroCrossings)
      else zeroCrossings)"
  by pat_completeness auto
termination
  by (relation "measure (\<lambda>(samples, l, i, zeroCrossings). l - i)") auto

declare crossings_loop.simps [simp del]

definition AnalyzeHighestFrequency :: "sample list \<Rightarrow> 64 word \<Rightarrow> float64" where
  "AnalyzeHighestFrequency samples sampleRate =
     (let l = length samples;
          zeroCrossings = crossings_loop samples l 1 0;
          duration = f64_div (f64_of_int (int l)) (f64_of_int (sint sampleRate));
          frequency = f64_div (f64_of_int (int zeroCrossings)) (f64_mul (f64_of_int 2) duration)
      in frequency)"

subsection \<open>LowPassFilter\<close>

text \<open>
  The constant expression \<open>2.0 * math.Pi\<close> is folded exactly and then rounded to
  \<open>float64\<close>: twice the \<open>float64\<close> nearest to \<open>\<pi>\<close>.
\<close>

definition two_pi :: float64 where
  "two_pi = Fin (884279719003555 / 2 ^ 47)"

definition lowpass_alpha :: "64 word \<Rightarrow> float64 \<Rightarrow> float64" where
  "lowpass_alpha sampleRate cutoffFrequency =
     (let rc = f64_div (Fin 1) (f64_mul two_pi cutoffFrequency);
          dt = f64_div (Fin 1) (f64_of_int (sint sampleRate));
          alpha = f64_div dt (f64_add rc dt)
      in alpha)"

function lowpass_loop :: "float64 \<Rightarrow> sample list \<Rightarrow> nat \<Rightarrow> sample list \<Rightarrow> sample list" where
  "lowpass_loop alpha samples i filteredSamples =
     (if i < length samples then
        lowpass_loop alpha samples (i + 1)
          (filteredSamples[i :=
             int16_of_f64
               (f64_add (f64_of_sample (filteredSamples ! (i - 1)))
                  (f64_mul alpha
                     (f64_sub (f64_of_sample (samples ! i))
                        (f64_of_sample (filteredSamples ! (i - 1))))))])
      else filteredSamples)"
  by pat_completeness auto
termination
  by (relation "measure (\<lambda>(alpha, samples, i, filteredSamples). length samples - i)") auto

declare lowpass_loop.simps [simp del]

text \<open>
  \<open>filteredSamples[0] = samples[0]\<close> is executed before the loop, whatever the length:
  on an empty slice both the read and the write are out of range and the program panics.
\<close>

definition LowPassFilter :: "sample list \<Rightarrow> 64 word \<Rightarrow> float64 \<Rightarrow> panic + sample list" where
  "LowPassFilter samples sampleRate cutoffFrequency =
     (let alpha = lowpass_alpha sampleRate cutoffFrequency;
          filteredSamples = replicate (length samples) 0
      in if length samples = 0 then Inl IndexOutOfRange
         else Inr (lowpass_loop alpha samples 1 (filteredSamples[0 := samples ! 0])))"

text \<open>The commands carry a private copy \<open>lowPassFilter\<close> with the same body.\<close>

definition lowPassFilter :: "sample list \<Rightarrow> 64 word \<Rightarrow> float64 \<Rightarrow> panic + sample list" where
  "lowPassFilter samples sampleRate cutoffFrequency =
     (let alpha = lowpass_alpha sampleRate cutoffFrequency;
          filteredSamples = replicate (length samples) 0
      in if length samples = 0 then Inl IndexOutOfRange
         else Inr (lowpass_loop alpha samples 1 (filteredSamples[0 := samples ! 0])))"

section \<open>Reference notions of the specification\<close>

text \<open>Saturation: the clamp of an integer to the sample range \<open>[-32768, 32767]\<close>.\<close>

definition saturate :: "int \<Rightarrow> int" where
  "saturate v = (if v > 32767 then 32767 else if v < - 32768 then - 32768 else v)"

text \<open>
  A zero crossing in the words of the specification: a change from a strictly positive
  to a strictly negative sample or back between two consecutive samples. A zero sample
  is neither.
\<close>

definition strict_sign_change :: "int \<Rightarrow> int \<Rightarrow> bool" where
  "strict_sign_change a b = ((0 < a \<and> b < 0) \<or> (a < 0 \<and> 0 < b))"

definition zero_crossings :: "sample list \<Rightarrow> nat" where
  "zero_crossings w =
     length (filter (\<lambda>i. strict_sign_change (sint (w ! (i - 1))) (sint (w ! i))) [1..<length w])"

section \<open>Properties of the \<open>float64\<close> model\<close>

text \<open>
  Rounding to an integer moves a value by at most one half, fixes the integers and is
  monotone.
\<close>

lemma round_half_even_of_int: "round_half_even (of_int k) = k"
  by (simp add: round_half_even_def)

lemma round_half_even_error: "\<bar>of_int (round_half_even q) - q\<bar> \<le> 1 / 2"
proof -
  have "of_int \<lfloor>q\<rfloor> \<le> q" "q < of_int \<lfloor>q\<rfloor> + 1"
    by linarith+
  then show ?thesis
    by (auto simp: round_half_even_def Let_def)
qed

lemma round_half_even_floor: "\<lfloor>q\<rfloor> \<le> round_half_even q" "round_half_even q \<le> \<lfloor>q\<rfloor> + 1"
  by (simp_all add: round_half_even_def Let_def)

lemma round_half_even_mono:
  assumes "q \<le> q'"
  shows "round_half_even q \<le> round_half_even q'"
proof (cases "\<lfloor>q\<rfloor> = \<lfloor>q'\<rfloor>")
  case True
  with assms show ?thesis
    by (auto simp: round_half_even_def Let_def)
next
  case False
  with assms have "\<lfloor>q\<rfloor> + 1 \<le> \<lfloor>q'\<rfloor>"
    using floor_mono [of q q'] by linarith
  with round_half_even_floor(2) [of q] round_half_even_floor(1) [of q'] show ?thesis
    by linarith
qed

lemma round_half_even_ge: "of_int k \<le> q \<Longrightarrow> k \<le> round_half_even q"
  using round_half_even_mono [of "of_int k" q] by (simp add: round_half_even_of_int)

lemma round_half_even_le: "q \<le> of_int k \<Longrightarrow> round_half_even q \<le> k"
  using round_half_even_mono [of q "of_int k"] by (simp add: round_half_even_of_int)

text \<open>The binary exponent brackets its argument between two powers of two.\<close>

lemma expo_bounds:
  assumes "x \<noteq> 0"
  shows "2 powi expo x \<le> \<bar>x\<bar>" and "\<bar>x\<bar> < 2 powi (expo x + 1)"
proof -
  obtain p q where pq: "quotient_of \<bar>x\<bar> = (p, q)"
    by (cases "quotient_of \<bar>x\<bar>")
  have q: "0 < q" using pq by (rule quotient_of_denom_pos)
  have x: "\<bar>x\<bar> = of_int p / of_int q" using pq by (rule quotient_of_div)
  have "(0::rat) < of_int p / of_int q"
    using assms x by (metis zero_less_abs_iff)
  then have p: "0 < p"
    using q by (simp add: zero_less_divide_iff)
  define A where "A = nat (bitlen p - 1)"
  define B where "B = nat (bitlen q - 1)"
  have bp: "bitlen p = int A + 1" and bq: "bitlen q = int B + 1"
    using p q bitlen_nonneg [of p] bitlen_eq_zero_iff [of p] bitlen_eq_zero_iff [of q] bitlen_nonneg [of q]
    by (auto simp: A_def B_def)
  have nA: "nat (bitlen p) = A + 1" and nB: "nat (bitlen q) = B + 1"
    by (simp_all add: bp bq nat_add_distrib)
  have pb: "2 ^ A \<le> p" "p < 2 ^ (A + 1)"
    using bitlen_bounds [OF p] unfolding nA by (simp_all add: A_def)
  have qb: "2 ^ B \<le> q" "q < 2 ^ (B + 1)"
    using bitlen_bounds [OF q] unfolding nB by (simp_all add: B_def)
  have pr: "(2::rat) ^ A \<le> of_int p" "(of_int p :: rat) < 2 ^ (A + 1)"
    and qr: "(2::rat) ^ B \<le> of_int q" "(of_int q :: rat) < 2 ^ (B + 1)"
    using pb qb by (metis of_int_le_iff of_int_less_iff of_int_numeral of_int_power)+
  have qpos: "(0::rat) < of_int q" using q by simp
  have e0: "bitlen p - bitlen q = int A - int B" using bp bq by simp
  have lo: "(2::rat) powi (int A - int B - 1) \<le> \<bar>x\<bar>"
  proof -
    have "(2::rat) powi (int A - int B - 1) = 2 ^ A / 2 ^ (B + 1)"
      by (simp add: power_int_diff)
    also have "\<dots> \<le> of_int p / of_int q"
      using pr qr qpos p by (intro frac_le) simp_all
    finally show ?thesis using x by simp
  qed
  have hi: "\<bar>x\<bar> < (2::rat) powi (int A - int B + 1)"
  proof -
    have "of_int p / of_int q < (2::rat) ^ (A + 1) / 2 ^ B"
      using pr qr qpos p by (intro frac_less) simp_all
    also have "\<dots> = 2 powi (int A - int B + 1)"
      by (simp add: power_int_diff power_int_add)
    finally show ?thesis using x by simp
  qed
  show "2 powi expo x \<le> \<bar>x\<bar>"
    using lo by (simp add: expo_def pq e0 Let_def)
  show "\<bar>x\<bar> < 2 powi (expo x + 1)"
    using hi by (auto simp: expo_def pq e0 Let_def not_le)
qed


lemma two_powi_less_imp: "(2::rat) powi a < 2 powi b \<Longrightarrow> a < b"
  using power_int_increasing [of b a "2::rat"] by (cases "a < b") simp_all

lemma two_powi_pos: "(0::rat) < 2 powi a"
  by (simp add: zero_less_power_int)

text \<open>
  A value \<open>m * 2 powi j\<close> with \<open>\<bar>m\<bar> < 2 ^ 53\<close> and an exponent in range is
  representable: rounding returns it unchanged.
\<close>

lemma round64_exact:
  assumes m: "\<bar>m\<bar> < 2 ^ 53" and j: "- 1074 \<le> j" "j \<le> 971"
  shows "round64 (of_int m * 2 powi j) = Fin (of_int m * 2 powi j)"
proof (cases "m = 0")
  case True
  then show ?thesis by (simp add: round64_def)
next
  case False
  define x :: rat where "x = of_int m * 2 powi j"
  have x0: "x \<noteq> 0"
    using False two_powi_pos [of j] by (simp add: x_def)
  have absx: "\<bar>x\<bar> = of_int \<bar>m\<bar> * 2 powi j"
    using two_powi_pos [of j] by (simp add: x_def abs_mult)
  have "(of_int \<bar>m\<bar> :: rat) < 2 ^ 53"
    using m by (metis of_int_less_iff of_int_numeral of_int_power)
  then have "\<bar>x\<bar> < 2 ^ 53 * 2 powi j"
    unfolding absx using two_powi_pos [of j] by (intro mult_strict_right_mono)
  also have "\<dots> = 2 powi (53 + j)"
    by (simp add: power_int_add)
  finally have xlt: "\<bar>x\<bar> < 2 powi (53 + j)" .
  with expo_bounds(1) [OF x0] have "(2::rat) powi expo x < 2 powi (53 + j)"
    by simp
  then have e: "expo x < 53 + j"
    by (rule two_powi_less_imp)
  define g where "g = max (expo x - 52) (- 1074)"
  have g: "g \<le> j" using e j by (simp add: g_def)
  have "x / 2 powi g = of_int m * 2 powi (j - g)"
    by (simp add: x_def power_int_diff)
  also have "\<dots> = of_int (m * 2 ^ nat (j - g))"
    using g by (simp add: power_int_def)
  finally have q: "x / 2 powi g = of_int (m * 2 ^ nat (j - g))" .
  have r: "of_int (round_half_even (x / 2 powi g)) * 2 powi g = x"
    unfolding q round_half_even_of_int unfolding q [symmetric] by simp
  have "(2::rat) powi (53 + j) \<le> 2 powi 1024"
    using j by (intro power_int_increasing) simp_all
  with xlt have "\<bar>x\<bar> < 2 ^ 1024" by simp
  then show ?thesis
    using x0 r unfolding x_def [symmetric] by (simp add: round64_def Let_def g_def [symmetric])
qed

lemma round64_of_int:
  assumes "\<bar>m\<bar> < 2 ^ 53"
  shows "round64 (of_int m) = Fin (of_int m)"
  using round64_exact [OF assms, of 0] by simp

lemma round64_nonneg:
  assumes "0 \<le> x"
  shows "round64 x = PInf \<or> (\<exists>r. round64 x = Fin r \<and> 0 \<le> r)"
proof (cases "x = 0")
  case True
  then show ?thesis by (simp add: round64_def)
next
  case False
  define u :: rat where "u = 2 powi (max (expo x - 52) (- 1074))"
  have u: "0 < u" unfolding u_def by (rule two_powi_pos)
  then have "0 \<le> x / u" using assms by simp
  then have "0 \<le> round_half_even (x / u)"
    using round_half_even_ge [of 0 "x / u"] by simp
  then have "0 \<le> of_int (round_half_even (x / u)) * u"
    using u by simp
  then show ?thesis
    using False assms by (simp add: round64_def Let_def u_def [symmetric])
qed

text \<open>In the normal range rounding has a relative error of at most \<open>2 powi -53\<close>.\<close>

lemma round64_rel_error:
  assumes lo: "2 powi (- 1022) \<le> \<bar>x\<bar>" and hi: "\<bar>x\<bar> < 2 ^ 1023"
  shows "\<exists>r. round64 x = Fin r \<and> \<bar>r - x\<bar> \<le> \<bar>x\<bar> / 2 ^ 53"
proof -
  have x0: "x \<noteq> 0"
    using lo two_powi_pos [of "- 1022"] by auto
  have "(2::rat) powi (- 1022) < 2 powi (expo x + 1)"
    using lo expo_bounds(2) [OF x0] by simp
  then have e: "- 1022 < expo x + 1"
    by (rule two_powi_less_imp)
  define u :: rat where "u = 2 powi (expo x - 52)"
  have "max (expo x - 52) (- 1074) = expo x - 52"
    using e by linarith
  then have umax: "2 powi (max (expo x - 52) (- 1074)) = u"
    unfolding u_def by (rule arg_cong)
  have u: "0 < u" unfolding u_def by (rule two_powi_pos)
  define r where "r = of_int (round_half_even (x / u)) * u"
  have "r - x = (of_int (round_half_even (x / u)) - x / u) * u"
    using u by (simp add: r_def field_simps)
  then have "\<bar>r - x\<bar> = \<bar>of_int (round_half_even (x / u)) - x / u\<bar> * u"
    using u by (simp add: abs_mult)
  also have "\<dots> \<le> (1 / 2) * u"
    using u round_half_even_error [of "x / u"] by (intro mult_right_mono) simp_all
  also have "\<dots> = 2 powi expo x / 2 ^ 53"
    by (simp add: u_def power_int_diff)
  also have "\<dots> \<le> \<bar>x\<bar> / 2 ^ 53"
    using expo_bounds(1) [OF x0] by (simp add: divide_right_mono)
  finally have err: "\<bar>r - x\<bar> \<le> \<bar>x\<bar> / 2 ^ 53" .
  then have "\<bar>r\<bar> \<le> \<bar>x\<bar> + \<bar>x\<bar> / 2 ^ 53" by linarith
  also have "\<dots> \<le> 2 * \<bar>x\<bar>" by simp
  also have "\<dots> < 2 ^ 1024" using hi by simp
  finally have "\<not> 2 ^ 1024 \<le> \<bar>r\<bar>" by simp
  then have "round64 x = Fin r"
    using x0 by (simp add: round64_def Let_def umax r_def)
  with err show ?thesis by blast
qed

text \<open>Conversions between samples and \<open>float64\<close> are exact.\<close>

lemma f64_of_sample_exact: "f64_of_sample s = Fin (of_int (sint s))"
proof -
  have "\<bar>sint s\<bar> \<le> 2 ^ 15"
    using sint_ge [of s] sint_lt [of s] by simp
  then have "\<bar>sint s\<bar> < 2 ^ 53" by simp
  then show ?thesis
    unfolding f64_of_sample_def f64_of_int_def by (rule round64_of_int)
qed

lemma ftrunc_of_int: "ftrunc (of_int n) = n"
  by (simp add: ftrunc_def)

lemma abs_sample: "int16_of_f64 (f64_abs (f64_of_sample s)) = word_of_int \<bar>sint s\<bar>"
proof -
  have "\<bar>sint s\<bar> \<le> 2 ^ 15"
    using sint_ge [of s] sint_lt [of s] by simp
  then have "- (2 ^ 31) \<le> \<bar>sint s\<bar> \<and> \<bar>sint s\<bar> < 2 ^ 31" by simp
  moreover have "f64_abs (f64_of_sample s) = Fin (of_int \<bar>sint s\<bar>)"
    by (simp add: f64_of_sample_exact)
  ultimately show ?thesis
    by (simp add: ftrunc_of_int del: of_int_abs)
qed

lemma sint_word_of_int_16:
  "- 32768 \<le> v \<Longrightarrow> v \<le> 32767 \<Longrightarrow> sint (word_of_int v :: sample) = v"
  by (simp add: sint_sbintrunc' signed_take_bit_int_eq_self)

lemma round64_nonzero:
  assumes "2 powi (- 1022) \<le> \<bar>x\<bar>" and "\<bar>x\<bar> < 2 ^ 1023"
  shows "\<exists>r. round64 x = Fin r \<and> r \<noteq> 0 \<and> \<bar>x\<bar> / 2 \<le> \<bar>r\<bar> \<and> \<bar>r\<bar> \<le> 2 * \<bar>x\<bar>"
proof -
  obtain r where r: "round64 x = Fin r" "\<bar>r - x\<bar> \<le> \<bar>x\<bar> / 2 ^ 53"
    using round64_rel_error [OF assms] by blast
  have x: "0 < \<bar>x\<bar>"
    using assms(1) two_powi_pos [of "- 1022"] by linarith
  have "\<bar>x\<bar> / 2 ^ 53 \<le> \<bar>x\<bar> / 2"
    using x by (intro divide_left_mono) simp_all
  with r(2) have "\<bar>r - x\<bar> \<le> \<bar>x\<bar> / 2" by linarith
  then have "\<bar>x\<bar> / 2 \<le> \<bar>r\<bar> \<and> \<bar>r\<bar> \<le> 2 * \<bar>x\<bar>"
    using x by (auto simp: abs_if split: if_splits)
  moreover from this x have "r \<noteq> 0" by auto
  ultimately show ?thesis using r(1) by blast
qed

lemma f64_of_int_small: "f64_of_int 0 = Fin 0" "f64_of_int 1 = Fin 1" "f64_of_int 2 = Fin 2"
  using round64_of_int [of 0] round64_of_int [of 1] round64_of_int [of 2]
  by (simp_all add: f64_of_int_def)

section \<open>Empty input\<close>

text \<open>
  C5. With no waveform, \<open>LinearSummation\<close> and \<open>RMSMixing\<close> fail with "no samples
  provided", and so does \<open>WeightedSummation\<close> with an empty weight list. With a
  non-empty weight list \<open>WeightedSummation\<close> compares the two counts first and fails
  with the weight-count error instead.
\<close>

theorem empty_input_errors:
  "LinearSummation [] = Inl NoSamplesProvided
   \<and> RMSMixing [] = Inl NoSamplesProvided
   \<and> WeightedSummation [] [] = Inl NoSamplesProvided
   \<and> WeightedSummation (w # ws) [] = Inl WeightCountMismatch"
  by (simp add: LinearSummation_def RMSMixing_def WeightedSummation_def)

text \<open>
  C5 as stated fails: one weight and no waveform is reported as a weight-count
  mismatch, not as empty input.
\<close>

theorem weighted_empty_input_counterexample:
  "WeightedSummation [Fin (1 / 2)] [] \<noteq> Inl NoSamplesProvided"
  by (simp add: WeightedSummation_def)

section \<open>Length mismatch\<close>

lemma linear_inner_mismatch:
  "\<exists>s \<in> set samples. length s \<noteq> numSamples \<Longrightarrow>
   linear_inner numSamples i samples acc = Inl MismatchedLengths"
  by (induction samples arbitrary: acc) auto

lemma weighted_inner_mismatch:
  "\<exists>s \<in> set samples. length s \<noteq> numSamples \<Longrightarrow>
   weighted_inner weights numSamples i j samples acc = Inl MismatchedLengths"
  by (induction samples arbitrary: acc j) auto

lemma rms_inner_mismatch:
  "\<exists>s \<in> set samples. length s \<noteq> numSamples \<Longrightarrow>
   rms_inner numSamples i samples acc = Inl MismatchedLengths"
  by (induction samples arbitrary: acc) auto

text \<open>
  When the first waveform is not empty the pass runs at index 0 and meets every
  waveform there: any length that differs from the first aborts the operation.
\<close>

lemma mismatch_detected_when_first_nonempty:
  assumes "samples \<noteq> []" and "samples ! 0 \<noteq> []"
    and "\<exists>s \<in> set samples. length s \<noteq> length (samples ! 0)"
  shows "LinearSummation samples = Inl MismatchedLengths"
    and "RMSMixing samples = Inl MismatchedLengths"
    and "length weights = length samples \<Longrightarrow>
         WeightedSummation weights samples = Inl MismatchedLengths"
  using assms
  by (simp_all add: LinearSummation_def RMSMixing_def WeightedSummation_def
      linear_loop.simps [of _ _ 0] rms_loop.simps [of _ _ 0] weighted_loop.simps [of _ _ _ 0]
      linear_inner_mismatch weighted_inner_mismatch rms_inner_mismatch)

text \<open>
  C4. The length check sits inside the per-index loop, whose bound is the length of
  the first waveform. When the first waveform is empty the loop body never runs: a
  longer second waveform goes unnoticed, and each of the three functions returns an
  empty result with no error.
\<close>

theorem mismatch_missed_when_first_empty:
  "LinearSummation [[], [1, 2]] = Inr []
   \<and> WeightedSummation [Fin (1 / 2), Fin (1 / 2)] [[], [1, 2]] = Inr []
   \<and> RMSMixing [[], [1, 2]] = Inr []"
  by (simp add: LinearSummation_def WeightedSummation_def RMSMixing_def
      linear_loop.simps weighted_loop.simps rms_loop.simps)

section \<open>LowPassFilter on the empty waveform\<close>

lemma lowpass_loop_length:
  "length (lowpass_loop alpha samples i filteredSamples) = length filteredSamples"
proof (induction alpha samples i filteredSamples rule: lowpass_loop.induct)
  case (1 alpha samples i filteredSamples)
  show ?case
  proof (cases "i < length samples")
    case True
    with "1.IH" show ?thesis by (subst lowpass_loop.simps) simp
  next
    case False
    then show ?thesis by (subst lowpass_loop.simps) simp
  qed
qed

text \<open>
  C10. \<open>LowPassFilter\<close> and the commands' copy \<open>lowPassFilter\<close> panic with an index out
  of range on the empty waveform, whatever the sample rate and cutoff; on a non-empty
  waveform they return a waveform of the same length.
\<close>

theorem LowPassFilter_empty_panics:
  "LowPassFilter [] sampleRate cutoffFrequency = Inl IndexOutOfRange
   \<and> lowPassFilter [] sampleRate cutoffFrequency = Inl IndexOutOfRange
   \<and> (\<exists>out. LowPassFilter (s # rest) sampleRate cutoffFrequency = Inr out
            \<and> length out = length (s # rest))
   \<and> (\<exists>out. lowPassFilter (s # rest) sampleRate cutoffFrequency = Inr out
            \<and> length out = length (s # rest))"
  by (simp add: LowPassFilter_def lowPassFilter_def lowpass_loop_length)

section \<open>LinearSummation\<close>

lemma linear_inner_sum:
  "\<forall>s \<in> set samples. length s = numSamples \<Longrightarrow>
   linear_inner numSamples i samples acc
     = Inr (acc + word_of_int (\<Sum>s\<leftarrow>samples. sint (s ! i)))"
proof (induction samples arbitrary: acc)
  case Nil
  then show ?case by simp
next
  case (Cons s rest)
  then show ?case by (simp add: add.assoc)
qed

lemma sum_list_sint_bounds:
  fixes samples :: "sample list list"
  shows "- 32768 * int (length samples) \<le> (\<Sum>s\<leftarrow>samples. sint (s ! i))
         \<and> (\<Sum>s\<leftarrow>samples. sint (s ! i)) \<le> 32767 * int (length samples)"
proof (induction samples)
  case Nil
  then show ?case by simp
next
  case (Cons s rest)
  have "- 32768 \<le> sint (s ! i)" "sint (s ! i) \<le> 32767"
    using sint_ge [of "s ! i"] sint_lt [of "s ! i"] by simp_all
  with Cons show ?case by simp
qed

lemma clamp_int32_saturate:
  assumes "- (2 ^ 31) \<le> v" and "v < 2 ^ 31"
  shows "clamp_int32 (word_of_int v) = word_of_int (saturate v)"
proof -
  have sv: "sint (word_of_int v :: 32 word) = v"
    using assms by (simp add: sint_sbintrunc' signed_take_bit_int_eq_self)
  have "clamp_int32 (word_of_int v) = word_of_int (sint (word_of_int (saturate v) :: 32 word))"
    unfolding clamp_int32_def by (subst scast_eq) (simp add: sv saturate_def MaxInt16_def MinInt16_def)
  moreover have "sint (word_of_int (saturate v) :: 32 word) = saturate v"
    by (simp add: sint_sbintrunc' signed_take_bit_int_eq_self saturate_def)
  ultimately show ?thesis by simp
qed

lemma linear_loop_result:
  "(\<forall>s \<in> set samples. length s = numSamples) \<Longrightarrow> length samples \<le> 65536 \<Longrightarrow>
   i \<le> numSamples \<Longrightarrow> length combined = numSamples \<Longrightarrow>
    linear_loop samples numSamples i combined
      = Inr (take i combined
             @ map (\<lambda>k. word_of_int (saturate (\<Sum>s\<leftarrow>samples. sint (s ! k)))) [i..<numSamples])"
proof (induction samples numSamples i combined rule: linear_loop.induct)
  case (1 samples numSamples i combined)
  show ?case
  proof (cases "i < numSamples")
    case False
    with "1.prems" show ?thesis by (subst linear_loop.simps) simp
  next
    case True
    let ?v = "\<Sum>s\<leftarrow>samples. sint (s ! i)"
    let ?f = "\<lambda>k. word_of_int (saturate (\<Sum>s\<leftarrow>samples. sint (s ! k))) :: sample"
    have inner: "linear_inner numSamples i samples 0 = Inr (word_of_int ?v)"
      using linear_inner_sum [OF "1.prems"(1), of i 0] by simp
    have "- (2 ^ 31) \<le> ?v" "?v < 2 ^ 31"
      using sum_list_sint_bounds [of samples i] "1.prems"(2) by simp_all
    then have cl: "clamp_int32 (word_of_int ?v) = word_of_int (saturate ?v)"
      by (rule clamp_int32_saturate)
    have "linear_loop samples numSamples i combined
          = linear_loop samples numSamples (i + 1) (combined[i := ?f i])"
      using True inner cl by (subst linear_loop.simps) simp
    also have "\<dots> = Inr (take (i + 1) (combined[i := ?f i]) @ map ?f [i + 1..<numSamples])"
      using "1.IH" [OF True inner] "1.prems" True cl by simp
    also have "take (i + 1) (combined[i := ?f i]) = take i combined @ [?f i]"
      using True "1.prems"(4) by (simp add: take_Suc_conv_app_nth)
    finally show ?thesis
      using True by (simp add: upt_conv_Cons)
  qed
qed

text \<open>
  C1 (amended). For a non-empty collection of at most 65536 waveforms of one length
  \<open>n\<close>, \<open>LinearSummation\<close> succeeds and returns the waveform of length \<open>n\<close> whose
  sample at index \<open>i\<close> is the saturated sum of the inputs' samples at \<open>i\<close>. Up to
  65536 summands the \<open>int32\<close> accumulator cannot wrap around.
\<close>

theorem LinearSummation_sum:
  assumes "samples \<noteq> []"
    and "\<forall>s \<in> set samples. length s = n"
    and "length samples \<le> 65536"
  shows "LinearSummation samples
         = Inr (map (\<lambda>i. word_of_int (saturate (\<Sum>s\<leftarrow>samples. sint (s ! i)))) [0..<n])"
proof -
  have "length (samples ! 0) = n"
    using assms(1,2) by (cases samples) simp_all
  then show ?thesis
    using assms linear_loop_result [of samples n 0 "replicate n 0"]
    by (simp add: LinearSummation_def)
qed

theorem LinearSummation_sum_witness:
  "LinearSummation [[1000, - 2000, 32767], [2000, - 31000, 1]] = Inr [3000, - 32768, 32767]"
proof -
  have "LinearSummation [[1000, - 2000, 32767], [2000, - 31000, 1]]
      = Inr (map (\<lambda>i. word_of_int (saturate (\<Sum>s\<leftarrow>[[1000, - 2000, 32767], [2000, - 31000, 1 :: sample]]. sint (s ! i)))) [0..<3])"
    by (rule LinearSummation_sum) simp_all
  also have "[0..<3] = [0, 1, 2]" by (simp add: upt_rec)
  finally show ?thesis by (simp add: saturate_def)
qed

lemma linear_inner_replicate:
  "linear_inner (Suc 0) 0 (replicate k [x]) acc = Inr (acc + of_nat k * scast x)"
  by (induction k arbitrary: acc) (simp_all add: algebra_simps)

lemma LinearSummation_replicate:
  assumes "0 < k"
  shows "LinearSummation (replicate k [x]) = Inr [clamp_int32 (of_nat k * scast x)]"
proof -
  have "linear_loop (replicate k [x]) 1 0 [0] = linear_loop (replicate k [x]) 1 1 [clamp_int32 (of_nat k * scast x)]"
    by (subst linear_loop.simps) (simp add: linear_inner_replicate)
  also have "\<dots> = Inr [clamp_int32 (of_nat k * scast x)]"
    by (subst linear_loop.simps) simp
  finally show ?thesis
    using assms by (simp add: LinearSummation_def)
qed

text \<open>
  C1 as stated, for every non-empty collection, fails: 65537 waveforms holding the one
  sample -32768 sum to a value below the \<open>int32\<close> range; the accumulator wraps around
  to a positive value and the result is clamped to 32767, where the saturated sum is
  -32768.
\<close>

theorem LinearSummation_overflow_counterexample:
  "LinearSummation (replicate 65537 [- 32768]) = Inr [32767]
   \<and> saturate (\<Sum>s\<leftarrow>replicate 65537 [- 32768 :: sample]. sint (s ! 0)) = - 32768"
proof -
  have "clamp_int32 (of_nat 65537 * scast (- 32768 :: sample)) = 32767"
    by (simp add: clamp_int32_def MaxInt16_def MinInt16_def)
  then have "LinearSummation (replicate 65537 [- 32768]) = Inr [32767]"
    using LinearSummation_replicate [of 65537 "- 32768"] by simp
  moreover have "(\<Sum>s\<leftarrow>replicate 65537 [- 32768 :: sample]. sint (s ! 0)) = 65537 * (- 32768)"
    by (simp add: sum_list_replicate)
  ultimately show ?thesis
    by (simp add: saturate_def)
qed

section \<open>FindPeakAmplitude\<close>

text \<open>
  On a waveform without the sample -32768 the loop returns the largest absolute
  sample value, and 0 on the empty waveform.
\<close>

lemma peak_loop_max:
  "\<forall>s \<in> set w. sint s \<noteq> - 32768 \<Longrightarrow> 0 \<le> sint m \<Longrightarrow>
   sint (peak_loop w m) = Max (insert (sint m) ((\<lambda>s. \<bar>sint s\<bar>) ` set w))"
proof (induction w arbitrary: m)
  case Nil
  then show ?case by simp
next
  case (Cons s w)
  have "- 32768 \<le> sint s" "sint s \<le> 32767"
    using sint_ge [of s] sint_lt [of s] by simp_all
  with Cons.prems have ab: "sint (word_of_int \<bar>sint s\<bar> :: sample) = \<bar>sint s\<bar>"
    by (intro sint_word_of_int_16) auto
  let ?m' = "if \<bar>sint s\<bar> > sint m then word_of_int \<bar>sint s\<bar> else m :: sample"
  have m': "sint ?m' = max (sint m) \<bar>sint s\<bar>"
    using ab by auto
  have "sint (peak_loop (s # w) m) = sint (peak_loop w ?m')"
    by (simp add: abs_sample ab Let_def)
  also have "\<dots> = Max (insert (sint ?m') ((\<lambda>s. \<bar>sint s\<bar>) ` set w))"
    using Cons.prems m' by (intro Cons.IH) auto
  also have "\<dots> = Max (insert (sint m) ((\<lambda>s. \<bar>sint s\<bar>) ` set (s # w)))"
    unfolding m' by (cases "set w = {}") (simp_all add: max.assoc)
  finally show ?case .
qed

lemma FindPeakAmplitude_max:
  assumes "\<forall>s \<in> set w. sint s \<noteq> - 32768"
  shows "sint (FindPeakAmplitude w) = Max (insert 0 ((\<lambda>s. \<bar>sint s\<bar>) ` set w))"
  using peak_loop_max [OF assms, of 0] by (simp add: FindPeakAmplitude_def)

text \<open>
  C3. The absolute value of -32768 is 32768.0 in \<open>float64\<close>; the conversion back to
  \<open>int16\<close> is not capped and yields -32768, which is never greater than the running
  maximum. The sample is skipped: the peak of the waveform holding only -32768 is
  reported as 0. The other values of the claim are as stated.
\<close>

theorem FindPeakAmplitude_min_sample:
  "FindPeakAmplitude [- 32768] = 0 \<and> FindPeakAmplitude [- 32768, 5] = 5
   \<and> FindPeakAmplitude [100, - 200, 50] = 200 \<and> FindPeakAmplitude [] = 0"
  by (simp add: FindPeakAmplitude_def abs_sample Let_def)

section \<open>AnalyzeHighestFrequency\<close>

lemma crossings_loop_count:
  "1 \<le> i \<Longrightarrow> l = length w \<Longrightarrow>
   crossings_loop w l i c
     = c + length (filter (\<lambda>i. strict_sign_change (sint (w ! (i - 1))) (sint (w ! i))) [i..<l])"
proof (induction w l i c rule: crossings_loop.induct)
  case (1 samples l i zeroCrossings)
  show ?case
  proof (cases "i < l")
    case False
    then show ?thesis by (subst crossings_loop.simps) simp
  next
    case True
    then have "[i..<l] = i # [i + 1..<l]" by (simp add: upt_conv_Cons)
    with True "1.IH" [OF True] "1.prems" show ?thesis
      by (subst crossings_loop.simps) (simp add: strict_sign_change_def)
  qed
qed

lemma frequency_of_single_sample:
  "AnalyzeHighestFrequency [s] sampleRate = Fin 0"
proof (cases "sint sampleRate = 0")
  case True
  have "crossings_loop [s] 1 1 0 = 0"
    by (subst crossings_loop.simps) simp
  then show ?thesis
    using True by (simp add: AnalyzeHighestFrequency_def f64_of_int_small signed_inf_def)
next
  case False
  have c: "crossings_loop [s] 1 1 0 = 0"
    by (subst crossings_loop.simps) simp
  define n :: rat where "n = of_int (sint sampleRate)"
  have nb: "1 \<le> \<bar>n\<bar>" "\<bar>n\<bar> \<le> 2 ^ 63"
  proof -
    have "1 \<le> \<bar>sint sampleRate\<bar>" using False by simp
    then show "1 \<le> \<bar>n\<bar>" unfolding n_def by (metis of_int_1_le_iff of_int_abs)
    have "\<bar>sint sampleRate\<bar> \<le> 2 ^ 63"
      using sint_ge [of sampleRate] sint_lt [of sampleRate] by simp
    then show "\<bar>n\<bar> \<le> 2 ^ 63"
      unfolding n_def by (metis of_int_abs of_int_le_iff of_int_numeral of_int_power)
  qed
  have small: "(2::rat) powi (- 1022) \<le> 1 / 2 ^ 70"
    by (simp add: power_int_minus field_simps)
  obtain r where r: "round64 n = Fin r" "r \<noteq> 0" "\<bar>n\<bar> / 2 \<le> \<bar>r\<bar>" "\<bar>r\<bar> \<le> 2 * \<bar>n\<bar>"
    using round64_nonzero [of n] nb small by (auto simp: power_int_minus field_simps)
  have rb: "1 / 2 \<le> \<bar>r\<bar>" "\<bar>r\<bar> \<le> 2 ^ 64"
    using r nb by simp_all
  have "1 / 2 ^ 64 \<le> \<bar>1 / r\<bar>" "\<bar>1 / r\<bar> \<le> 2"
    using rb r(2) by (simp_all add: field_simps abs_if split: if_splits)
  then obtain d where d: "round64 (1 / r) = Fin d" "d \<noteq> 0" "\<bar>1 / r\<bar> / 2 \<le> \<bar>d\<bar>" "\<bar>d\<bar> \<le> 2 * \<bar>1 / r\<bar>"
    using round64_nonzero [of "1 / r"] small by fastforce
  have "1 / 2 ^ 64 \<le> \<bar>2 * d\<bar>" "\<bar>2 * d\<bar> \<le> 8"
    using d \<open>1 / 2 ^ 64 \<le> \<bar>1 / r\<bar>\<close> \<open>\<bar>1 / r\<bar> \<le> 2\<close> by simp_all
  then obtain e where e: "round64 (2 * d) = Fin e" "e \<noteq> 0"
    using round64_nonzero [of "2 * d"] small by fastforce
  have "f64_of_int (sint sampleRate) = Fin r"
    using r(1) by (simp add: f64_of_int_def n_def)
  then show ?thesis
    using c r(2) d e by (simp add: AnalyzeHighestFrequency_def f64_of_int_small round64_def [of 0])
qed

text \<open>
  C9 (amended). The loop counts the strict sign changes between consecutive samples,
  and the result is that count divided by twice the duration, in \<open>float64\<close>. On a
  waveform of length 1 the result is 0, whatever the sample rate.
\<close>

theorem AnalyzeHighestFrequency_crossings:
  "AnalyzeHighestFrequency w sampleRate
     = f64_div (f64_of_int (int (zero_crossings w)))
         (f64_mul (f64_of_int 2)
            (f64_div (f64_of_int (int (length w))) (f64_of_int (sint sampleRate))))
   \<and> AnalyzeHighestFrequency [s] sampleRate = Fin 0"
  by (simp add: frequency_of_single_sample)
     (simp add: AnalyzeHighestFrequency_def crossings_loop_count zero_crossings_def Let_def)

text \<open>
  C9 as stated fails on the empty waveform: the duration is 0 and the quotient 0 / 0
  is a NaN, not 0.
\<close>

theorem AnalyzeHighestFrequency_empty_counterexample:
  "AnalyzeHighestFrequency [] 44100 = NaN"
proof -
  have "crossings_loop [] 0 1 0 = 0"
    by (subst crossings_loop.simps) simp
  moreover have "f64_of_int 44100 = Fin 44100"
    using round64_of_int [of 44100] by (simp add: f64_of_int_def)
  ultimately show ?thesis
    by (simp add: AnalyzeHighestFrequency_def f64_of_int_small round64_def [of 0])
qed

end
